theory Spec2Isabelle
  imports Complex_Main "HOL-Library.Word"
begin

section \<open>Channel interleaving\<close>

text \<open>
  \<^verbatim>\<open>zip(*channels)\<close>: one tuple per sample index, stopping as soon as one of
  the channels is exhausted; with no channel at all, \<^verbatim>\<open>zip()\<close> yields nothing.
\<close>

function zip_star :: "'a list list \<Rightarrow> 'a list list" where
  "zip_star cs = (if cs = [] \<or> [] \<in> set cs then [] else map hd cs # zip_star (map tl cs))"
  by pat_completeness auto
termination
proof (relation "measure (\<lambda>cs. length (hd cs))")
  fix cs :: "'a list list"
  assume "\<not> (cs = [] \<or> [] \<in> set cs)"
  then have "cs \<noteq> []" and "hd cs \<noteq> []"
    by (cases cs; auto)+
  then show "(map tl cs, cs) \<in> measure (\<lambda>cs. length (hd cs))"
    by (simp add: hd_map)
qed simp

declare zip_star.simps [simp del]

text \<open>
  \<^verbatim>\<open>return [sample for samples in zip(*channels) for sample in samples]\<close>
\<close>

definition merge_channels :: "'a list list \<Rightarrow> 'a list" where
  "merge_channels channels = concat (zip_star channels)"

text \<open>
  The extended slice \<^verbatim>\<open>xs[i::n]\<close> for \<open>0 \<le> i\<close> and \<open>1 \<le> n\<close>: skip \<open>i\<close> elements,
  then keep one element and skip \<open>n - 1\<close>, until the list is exhausted.
  (A step of 0 raises ValueError in Python; \<open>separate_channels\<close> never slices
  with it, since \<^verbatim>\<open>range(0)\<close> is empty.)
\<close>

fun step_elems :: "'a list \<Rightarrow> nat \<Rightarrow> 'a list" where
  "step_elems [] n = []"
| "step_elems (x # xs) n = x # step_elems (drop (n - 1) xs) n"

definition py_slice :: "'a list \<Rightarrow> nat \<Rightarrow> nat \<Rightarrow> 'a list" where
  "py_slice xs i n = step_elems (drop i xs) n"

text \<open>
  \<^verbatim>\<open>return [samples[i::num_channels] for i in range(num_channels)]\<close>;
  \<^verbatim>\<open>range(n)\<close> is empty for \<open>n \<le> 0\<close>.
\<close>

definition separate_channels :: "'a list \<Rightarrow> int \<Rightarrow> 'a list list" where
  "separate_channels samples num_channels =
     map (\<lambda>i. py_slice samples i (nat num_channels)) [0..<nat num_channels]"

section \<open>Module constants\<close>

definition SAMPLING_FREQ :: int where
  "SAMPLING_FREQ = 44100"

definition SAMPLE_BITS :: int where
  "SAMPLE_BITS = 16"

definition SAMPLE_WIDTH :: int where
  "SAMPLE_WIDTH = SAMPLE_BITS div 8"

definition MAX_SAMPLE_VALUE :: int where
  "MAX_SAMPLE_VALUE = 2 ^ nat (SAMPLE_BITS - 1) - 1"

section \<open>Floats\<close>

text \<open>
  A Python float is a double (IEEE 754 binary64: 53 significant bits, exponents from
  \<open>-1022\<close> to \<open>1023\<close>). A finite float is given by its real value; the samples,
  frequencies, amplitudes and durations of this theory are finite floats.

  The product of two floats is the exact product rounded to the nearest double, ties to
  the even significand, and an infinity when the rounded magnitude reaches \<open>2^1024\<close>.
  \<open>binade\<close> is the exponent of the binade the number lies in (that of the subnormals
  at the bottom), \<open>quantum\<close> the distance between the doubles of that binade.
\<close>

datatype rounded = Finite real | PosInf | NegInf

definition round_even :: "real \<Rightarrow> int" where
  "round_even y =
     (let f = \<lfloor>y\<rfloor>; d = y - of_int f
      in if d < 1 / 2 then f else if 1 / 2 < d then f + 1 else if even f then f else f + 1)"

definition binade :: "real \<Rightarrow> int" where
  "binade x = max \<lfloor>log 2 \<bar>x\<bar>\<rfloor> (- 1022)"

definition quantum :: "real \<Rightarrow> real" where
  "quantum x = 2 powi (binade x - 52)"

definition huge :: real where
  "huge = 2 ^ 1024"

definition round_double :: "real \<Rightarrow> rounded" where
  "round_double x =
     (if x = 0 then Finite 0
      else let q = quantum x; m = round_even (\<bar>x\<bar> / q)
           in if huge \<le> of_int m * q then (if 0 < x then PosInf else NegInf)
              else Finite (sgn x * (of_int m * q)))"

definition float_mul :: "real \<Rightarrow> real \<Rightarrow> rounded" where
  "float_mul x y = round_double (x * y)"

text \<open>
  The exceptions of the modelled functions: \<^verbatim>\<open>struct.error\<close> from packing and
  unpacking, \<^verbatim>\<open>OverflowError\<close> from \<^verbatim>\<open>int\<close> of an infinity.
\<close>

datatype error = StructError | OverflowError

text \<open>\<^verbatim>\<open>int(x)\<close> on a float truncates towards zero; an infinity has no integer.\<close>

definition trunc_zero :: "real \<Rightarrow> int" where
  "trunc_zero x = (if 0 \<le> x then \<lfloor>x\<rfloor> else \<lceil>x\<rceil>)"

fun py_int :: "rounded \<Rightarrow> error + int" where
  "py_int (Finite x) = Inr (trunc_zero x)"
| "py_int PosInf = Inl OverflowError"
| "py_int NegInf = Inl OverflowError"

text \<open>The values of a generator expression in order; the first one that raises ends it.\<close>

fun collect :: "(error + 'a) list \<Rightarrow> error + 'a list" where
  "collect [] = Inr []"
| "collect (r # rs) =
     (case r of
        Inl e \<Rightarrow> Inl e
      | Inr v \<Rightarrow> (case collect rs of Inl e \<Rightarrow> Inl e | Inr vs \<Rightarrow> Inr (v # vs)))"

text \<open>
  Float-valued results (the samples that \<open>sine_gen\<close> yields and that
  \<open>convert_to_samples\<close> returns) are given as the exact real results of the
  operations; their rounding is not modelled.
\<close>

section \<open>The sine generator\<close>


section \<open>The struct module\<close>

type_synonym byte = "8 word"

text \<open>\<^verbatim>\<open>sys.byteorder\<close> of the host: a format without prefix packs in native order.\<close>

datatype byteorder = LittleEndian | BigEndian

text \<open>The format codes in use: \<^verbatim>\<open>Ns\<close>, \<^verbatim>\<open>I\<close>, \<^verbatim>\<open>H\<close> and \<^verbatim>\<open>h\<close>.\<close>

datatype fmt_code = Chars nat | UInt | UShort | Short

fun code_size :: "fmt_code \<Rightarrow> nat" where
  "code_size (Chars n) = n"
| "code_size UInt = 4"
| "code_size UShort = 2"
| "code_size Short = 2"

fun code_align :: "fmt_code \<Rightarrow> nat" where
  "code_align (Chars n) = 1"
| "code_align UInt = 4"
| "code_align UShort = 2"
| "code_align Short = 2"

text \<open>
  \<^verbatim>\<open>struct.calcsize\<close>: with the prefix \<^verbatim>\<open><\<close> the items are packed without
  padding; without prefix every item is aligned to its own size.
\<close>

definition calcsize_std :: "fmt_code list \<Rightarrow> nat" where
  "calcsize_std codes = sum_list (map code_size codes)"

definition calcsize_native :: "fmt_code list \<Rightarrow> nat" where
  "calcsize_native codes =
     foldl (\<lambda>off c. off + (code_align c - off mod code_align c) mod code_align c + code_size c)
       0 codes"

definition RIFF_HEADER_STRUCT :: "fmt_code list" where
  "RIFF_HEADER_STRUCT = [Chars 4, UInt, Chars 4]"

definition FORMAT_HEADER_STRUCT :: "fmt_code list" where
  "FORMAT_HEADER_STRUCT = [Chars 4, UInt, UShort, UShort, UInt, UInt, UShort, UShort]"

definition DATA_HEADER_STRUCT :: "fmt_code list" where
  "DATA_HEADER_STRUCT = [Chars 4, UInt]"

text \<open>Packed with the prefix \<^verbatim>\<open><\<close>: little-endian, standard sizes, no padding.\<close>

definition WAVE_FILE_HEADERS_STRUCT :: "fmt_code list" where
  "WAVE_FILE_HEADERS_STRUCT = RIFF_HEADER_STRUCT @ FORMAT_HEADER_STRUCT @ DATA_HEADER_STRUCT"

text \<open>The bytes of a 16-bit and of a 32-bit machine integer, and back.\<close>

definition short_bytes :: "byteorder \<Rightarrow> 16 word \<Rightarrow> byte list" where
  "short_bytes order w =
     (case order of
        LittleEndian \<Rightarrow> [ucast w, ucast (drop_bit 8 w)]
      | BigEndian \<Rightarrow> [ucast (drop_bit 8 w), ucast w])"

definition bytes_short :: "byteorder \<Rightarrow> byte \<Rightarrow> byte \<Rightarrow> 16 word" where
  "bytes_short order b0 b1 =
     (case order of
        LittleEndian \<Rightarrow> word_cat b1 b0
      | BigEndian \<Rightarrow> word_cat b0 b1)"

definition int_bytes :: "32 word \<Rightarrow> byte list" where
  "int_bytes w = [ucast w, ucast (drop_bit 8 w), ucast (drop_bit 16 w), ucast (drop_bit 24 w)]"

text \<open>
  Packing one value. An integer outside the range of its code raises
  \<^verbatim>\<open>struct.error\<close>; \<^verbatim>\<open>Ns\<close> truncates or pads with null bytes.
\<close>

definition pack_h :: "byteorder \<Rightarrow> int \<Rightarrow> error + byte list" where
  "pack_h order v =
     (if - 32768 \<le> v \<and> v \<le> 32767 then Inr (short_bytes order (word_of_int v))
      else Inl StructError)"

definition pack_H :: "int \<Rightarrow> error + byte list" where
  "pack_H v =
     (if 0 \<le> v \<and> v \<le> 65535 then Inr (short_bytes LittleEndian (word_of_int v))
      else Inl StructError)"

definition pack_I :: "int \<Rightarrow> error + byte list" where
  "pack_I v =
     (if 0 \<le> v \<and> v \<le> 4294967295 then Inr (int_bytes (word_of_int v))
      else Inl StructError)"

definition pack_s :: "nat \<Rightarrow> byte list \<Rightarrow> error + byte list" where
  "pack_s n bs = Inr (take n bs @ replicate (n - length bs) 0)"

definition unpack_h :: "byteorder \<Rightarrow> byte \<Rightarrow> byte \<Rightarrow> int" where
  "unpack_h order b0 b1 = sint (bytes_short order b0 b1)"

text \<open>The packed items in order; the first item that fails raises.\<close>

fun pack_all :: "(error + byte list) list \<Rightarrow> error + byte list" where
  "pack_all [] = Inr []"
| "pack_all (r # rs) =
     (case r of
        Inl e \<Rightarrow> Inl e
      | Inr bs \<Rightarrow> (case pack_all rs of Inl e \<Rightarrow> Inl e | Inr rest \<Rightarrow> Inr (bs @ rest)))"

text \<open>
  \<^verbatim>\<open>struct.Struct(f"{n}h")\<close>, native mode: \<open>n\<close> shorts, which need no padding.
  \<^verbatim>\<open>pack\<close> takes exactly \<open>n\<close> values, \<^verbatim>\<open>unpack\<close> a buffer of exactly
  the size of the format.
\<close>

definition struct_pack_h :: "byteorder \<Rightarrow> nat \<Rightarrow> int list \<Rightarrow> error + byte list" where
  "struct_pack_h order n vs =
     (if length vs \<noteq> n then Inl StructError else pack_all (map (pack_h order) vs))"

fun unpack_shorts :: "byteorder \<Rightarrow> byte list \<Rightarrow> int list" where
  "unpack_shorts order (b0 # b1 # bs) = unpack_h order b0 b1 # unpack_shorts order bs"
| "unpack_shorts order bs = []"

definition struct_unpack_h :: "byteorder \<Rightarrow> nat \<Rightarrow> byte list \<Rightarrow> error + int list" where
  "struct_unpack_h order n buf =
     (if length buf \<noteq> calcsize_native (replicate n Short) then Inl StructError
      else Inr (unpack_shorts order buf))"

section \<open>The sample codec\<close>

text \<open>
  \<^verbatim>\<open>packer = struct.Struct(f"{len(samples)}h")
  return packer.pack(*(int(sample * MAX_SAMPLE_VALUE) for sample in samples))\<close>
  The argument list is built before \<^verbatim>\<open>pack\<close> is called, so an exception of
  \<^verbatim>\<open>int\<close> comes before any of \<^verbatim>\<open>pack\<close>.
\<close>

definition convert_to_bytes :: "byteorder \<Rightarrow> real list \<Rightarrow> error + byte list" where
  "convert_to_bytes order samples =
     (case collect (map (\<lambda>sample. py_int (float_mul sample (real_of_int MAX_SAMPLE_VALUE)))
                      samples) of
        Inl e \<Rightarrow> Inl e
      | Inr ints \<Rightarrow> struct_pack_h order (length samples) ints)"

text \<open>
  \<^verbatim>\<open>unpacker = struct.Struct(f"{len(sample_bytes) // SAMPLE_WIDTH}h")
  int_samples = unpacker.unpack(sample_bytes)
  return [int_sample / MAX_SAMPLE_VALUE for int_sample in int_samples]\<close>
\<close>

definition convert_to_samples :: "byteorder \<Rightarrow> byte list \<Rightarrow> error + real list" where
  "convert_to_samples order sample_bytes =
     (case struct_unpack_h order (length sample_bytes div nat SAMPLE_WIDTH) sample_bytes of
        Inl e \<Rightarrow> Inl e
      | Inr int_samples \<Rightarrow>
          Inr (map (\<lambda>int_sample. real_of_int int_sample / real_of_int MAX_SAMPLE_VALUE)
                 int_samples))"

section \<open>The headers\<close>

record WaveHeader =
  riff :: "byte list"
  file_size :: int
  wave :: "byte list"
  fmt :: "byte list"
  fmt_size :: int
  wav_type :: int
  num_channels :: int
  sampling_freq :: int
  bytes_per_second :: int
  block_align :: int
  sample_bits :: int
  data :: "byte list"
  data_size :: int

definition bytes_of :: "string \<Rightarrow> byte list" where
  "bytes_of s = map (\<lambda>c. of_nat (of_char c)) s"

definition create_headers :: "int \<Rightarrow> WaveHeader" where
  "create_headers num_samples =
     (let headers_size = int (calcsize_std WAVE_FILE_HEADERS_STRUCT);
          data_size = num_samples * SAMPLE_WIDTH;
          riff_file_size = int (calcsize_std WAVE_FILE_HEADERS_STRUCT) - 8 + data_size
      in \<lparr> riff = bytes_of ''RIFF'',
           file_size = riff_file_size,
           wave = bytes_of ''WAVE'',
           fmt = bytes_of ''fmt '',
           fmt_size = int (calcsize_native FORMAT_HEADER_STRUCT) - 8,
           wav_type = 1,
           num_channels = 2,
           sampling_freq = SAMPLING_FREQ,
           bytes_per_second = SAMPLING_FREQ * SAMPLE_WIDTH,
           block_align = SAMPLE_WIDTH,
           sample_bits = SAMPLE_BITS,
           data = bytes_of ''data'',
           data_size = data_size \<rparr>)"

text \<open>\<^verbatim>\<open>struct.pack(WAVE_FILE_HEADERS_STRUCT, *headers)\<close>, field by field.\<close>

definition pack_headers :: "WaveHeader \<Rightarrow> error + byte list" where
  "pack_headers h =
     pack_all
       [pack_s 4 (riff h), pack_I (file_size h), pack_s 4 (wave h),
        pack_s 4 (fmt h), pack_I (fmt_size h), pack_H (wav_type h), pack_H (num_channels h),
        pack_I (sampling_freq h), pack_I (bytes_per_second h), pack_H (block_align h),
        pack_H (sample_bits h),
        pack_s 4 (data h), pack_I (data_size h)]"

text \<open>
  \<^verbatim>\<open>headers = create_headers(len(samples))
  headers_bytes = struct.pack(WAVE_FILE_HEADERS_STRUCT, *headers)
  data_bytes = convert_to_bytes(samples)
  return headers_bytes, data_bytes\<close>
\<close>

definition encode_wave_data :: "byteorder \<Rightarrow> real list \<Rightarrow> error + byte list \<times> byte list" where
  "encode_wave_data order samples =
     (let headers = create_headers (int (length samples)) in
      case pack_headers headers of
        Inl e \<Rightarrow> Inl e
      | Inr headers_bytes \<Rightarrow>
          (case convert_to_bytes order samples of
             Inl e \<Rightarrow> Inl e
           | Inr data_bytes \<Rightarrow> Inr (headers_bytes, data_bytes)))"

section \<open>Reference reading of two bytes\<close>

text \<open>
  The signed 16-bit integer that two bytes denote in little-endian two's complement,
  written with integer arithmetic: the unsigned value \<open>b0 + 256 * b1\<close>, less \<open>2^16\<close>
  when its top bit is set. It is what the byte strings of the codec are compared with.
\<close>

definition le_int16 :: "byte \<Rightarrow> byte \<Rightarrow> int" where
  "le_int16 b0 b1 =
     (let u = uint b0 + 256 * uint b1 in if u < 32768 then u else u - 65536)"

text \<open>The same reading in the byte order of the host.\<close>

definition native_int16 :: "byteorder \<Rightarrow> byte \<Rightarrow> byte \<Rightarrow> int" where
  "native_int16 order b0 b1 =
     (case order of LittleEndian \<Rightarrow> le_int16 b0 b1 | BigEndian \<Rightarrow> le_int16 b1 b0)"

section \<open>Auxiliary notions of the proofs about rounding\<close>

text \<open>The magnitude that rounding gives, and the float of the opposite sign.\<close>

definition mag :: "real \<Rightarrow> real" where
  "mag x = of_int (round_even (\<bar>x\<bar> / quantum x)) * quantum x"

fun negate :: "rounded \<Rightarrow> rounded" where
  "negate (Finite r) = Finite (- r)"
| "negate PosInf = NegInf"
| "negate NegInf = PosInf"

section \<open>Slices and interleaving\<close>

lemma length_step_elems:
  "0 < n \<Longrightarrow> length (step_elems xs n) = (length xs + n - 1) div n"
proof (induction xs n rule: step_elems.induct)
  case (1 n)
  then show ?case by simp
next
  case (2 x xs n)
  have "(length xs - (n - 1) + n - 1) div n = length xs div n"
  proof (cases "n - 1 \<le> length xs")
    case True
    then show ?thesis using 2 by simp
  next
    case False
    then show ?thesis using 2 by simp
  qed
  then show ?case using 2 by simp
qed

lemma nth_step_elems:
  "0 < n \<Longrightarrow> k < length (step_elems xs n) \<Longrightarrow> step_elems xs n ! k = xs ! (k * n)"
proof (induction xs n arbitrary: k rule: step_elems.induct)
  case (1 n)
  then show ?case by simp
next
  case (2 x xs n)
  show ?case
  proof (cases k)
    case 0
    then show ?thesis by simp
  next
    case (Suc j)
    with 2 have j: "j < length (step_elems (drop (n - 1) xs) n)" by simp
    have "step_elems (drop (n - 1) xs) n ! j = drop (n - 1) xs ! (j * n)"
      using 2 j by simp
    also have "\<dots> = xs ! (n - 1 + j * n)"
    proof -
      from j have "drop (n - 1) xs \<noteq> []" by auto
      then have "n - 1 \<le> length xs" by simp
      then show ?thesis by simp
    qed
    finally show ?thesis using Suc 2 by simp
  qed
qed


lemma length_py_slice:
  "0 < n \<Longrightarrow> length (py_slice xs i n) = (length xs - i + n - 1) div n"
  by (simp add: py_slice_def length_step_elems)

lemma nth_py_slice:
  assumes "0 < n" and "k < length (py_slice xs i n)"
  shows "py_slice xs i n ! k = xs ! (i + k * n)"
proof -
  from assms have "drop i xs \<noteq> []" by (auto simp: py_slice_def)
  then have "i \<le> length xs" by simp
  with assms show ?thesis by (simp add: py_slice_def nth_step_elems)
qed

lemma zip_star_equal_length:
  "cs \<noteq> [] \<Longrightarrow> \<forall>c \<in> set cs. length c = L \<Longrightarrow>
   zip_star cs = map (\<lambda>t. map (\<lambda>c. c ! t) cs) [0..<L]"
proof (induction L arbitrary: cs)
  case 0
  then have "[] \<in> set cs" by (cases cs) auto
  then show ?case by (simp add: zip_star.simps)
next
  case (Suc L)
  then have ne: "[] \<notin> set cs" by auto
  have tl: "\<forall>c \<in> set (map tl cs). length c = L" using Suc.prems by auto
  have "zip_star (map tl cs) = map (\<lambda>t. map (\<lambda>c. c ! t) (map tl cs)) [0..<L]"
    using Suc.IH [of "map tl cs"] Suc.prems tl by simp
  also have "\<dots> = map (\<lambda>t. map (\<lambda>c. c ! Suc t) cs) [0..<L]"
    using Suc.prems by (auto simp: nth_tl)
  finally have rest: "zip_star (map tl cs) = map (\<lambda>t. map (\<lambda>c. c ! Suc t) cs) [0..<L]" .
  have hd: "map hd cs = map (\<lambda>c. c ! 0) cs"
  proof (rule map_cong [OF refl])
    fix c assume "c \<in> set cs"
    with ne have "c \<noteq> []" by auto
    then show "hd c = c ! 0" by (rule hd_conv_nth)
  qed
  have "zip_star cs = map hd cs # zip_star (map tl cs)"
    using Suc.prems ne by (subst zip_star.simps) simp
  also have "\<dots> = map (\<lambda>t. map (\<lambda>c. c ! t) cs) [0..<Suc L]"
    unfolding rest hd by (simp add: upt_conv_Cons map_Suc_upt [symmetric] del: upt_Suc)
  finally show ?case .
qed

lemma length_concat_rows:
  "\<forall>r \<in> set rows. length r = n \<Longrightarrow> length (concat rows) = length rows * n"
  by (induction rows) auto

lemma nth_concat_rows:
  "\<forall>r \<in> set rows. length r = n \<Longrightarrow> i < n \<Longrightarrow> k < length rows \<Longrightarrow>
   concat rows ! (i + k * n) = rows ! k ! i"
proof (induction rows arbitrary: k)
  case Nil
  then show ?case by simp
next
  case (Cons r rows)
  show ?case
  proof (cases k)
    case 0
    with Cons show ?thesis by (simp add: nth_append)
  next
    case (Suc j)
    with Cons show ?thesis by (simp add: nth_append)
  qed
qed

section \<open>Bytes of a 16-bit integer\<close>

lemma uint_lt_16: "uint (w :: 16 word) < 65536"
  using uint_bounded [of w] by simp

lemma uint_lt_8: "uint (b :: 8 word) < 256"
  using uint_bounded [of b] by simp

lemma uint_short_bytes:
  "uint (ucast (w :: 16 word) :: 8 word) + 256 * uint (ucast (drop_bit 8 w) :: 8 word) = uint w"
proof -
  have lo: "uint (ucast w :: 8 word) = uint w mod 256"
    by (simp add: unsigned_ucast_eq take_bit_eq_mod)
  have "uint (drop_bit 8 w) = drop_bit 8 (take_bit 16 (uint w))"
    by (subst unsigned_drop_bit_eq) simp
  also have "\<dots> = uint w div 256"
    using uint_lt_16 [of w] by (simp add: take_bit_eq_mod drop_bit_eq_div)
  finally have d: "uint (drop_bit 8 w) = uint w div 256" .
  have small: "uint w div 256 < 256" "0 \<le> uint w div 256"
    using uint_lt_16 [of w] by (simp_all add: pos_imp_zdiv_nonneg_iff)
  have "uint (ucast (drop_bit 8 w) :: 8 word) = uint (drop_bit 8 w) mod 256"
    by (simp only: unsigned_ucast_eq take_bit_eq_mod) simp
  also have "\<dots> = uint w div 256"
    unfolding d using small by simp
  finally have hi: "uint (ucast (drop_bit 8 w) :: 8 word) = uint w div 256" .
  show ?thesis unfolding lo hi by simp
qed

lemma uint_word_cat:
  "uint (word_cat (b1 :: 8 word) (b0 :: 8 word) :: 16 word) = uint b0 + 256 * uint b1"
proof -
  have "uint (word_cat b1 b0 :: 16 word) = concat_bit 8 (uint b0) (uint b1) mod 65536"
    by (simp only: word_cat_eq' uint_word_of_int) simp
  also have "concat_bit 8 (uint b0) (uint b1) = uint b0 + 256 * uint b1"
    using uint_lt_8 [of b0] by (simp add: concat_bit_eq take_bit_eq_mod push_bit_eq_mult)
  also have "(uint b0 + 256 * uint b1) mod 65536 = uint b0 + 256 * uint b1"
    using uint_lt_8 [of b0] uint_lt_8 [of b1] by simp
  finally show ?thesis .
qed

lemma sint_16: "sint (w :: 16 word) = (if uint w < 32768 then uint w else uint w - 65536)"
proof -
  have s: "sint w = (uint w + 32768) mod 65536 - 32768"
    by (simp add: sint_uint signed_take_bit_eq_take_bit_shift take_bit_eq_mod)
  show ?thesis
  proof (cases "uint w < 32768")
    case True
    then show ?thesis unfolding s by simp
  next
    case False
    have "uint w + 32768 = uint w - 32768 + 65536"
      by simp
    then have "(uint w + 32768) mod 65536 = (uint w - 32768 + 65536) mod 65536"
      by (rule arg_cong)
    also have "\<dots> = (uint w - 32768) mod 65536"
      by (simp only: mod_add_self2)
    also have "\<dots> = uint w - 32768"
      using False uint_lt_16 [of w] by simp
    finally show ?thesis using False unfolding s by simp
  qed
qed

lemma bytes_short_short_bytes:
  "short_bytes order w = [b0, b1] \<Longrightarrow> bytes_short order b0 b1 = w"
proof -
  assume a: "short_bytes order w = [b0, b1]"
  have cat: "word_cat (ucast (drop_bit 8 w) :: 8 word) (ucast w :: 8 word) = w"
    by (rule word_uint_eqI) (simp add: uint_word_cat uint_short_bytes)
  show ?thesis
    using a cat by (cases order) (auto simp: short_bytes_def bytes_short_def)
qed

lemma sint_word_of_int_16:
  assumes "- 32768 \<le> v" and "v \<le> 32767"
  shows "sint (word_of_int v :: 16 word) = v"
proof (cases "0 \<le> v")
  case True
  with assms have "uint (word_of_int v :: 16 word) = v"
    by (simp add: uint_word_of_int)
  with assms show ?thesis by (simp add: sint_16)
next
  case False
  have "(v + 65536) mod 65536 = v + 65536"
    using assms False by (intro mod_pos_pos_trivial) simp_all
  then have "v mod 65536 = v + 65536" by simp
  then have "uint (word_of_int v :: 16 word) = v + 65536"
    by (simp add: uint_word_of_int)
  with assms False show ?thesis by (simp add: sint_16)
qed

lemma pack_all_pack_h_ok:
  "\<forall>v \<in> set vs. - 32768 \<le> v \<and> v \<le> 32767 \<Longrightarrow>
   pack_all (map (pack_h order) vs) = Inr (concat (map (\<lambda>v. short_bytes order (word_of_int v)) vs))"
  by (induction vs) (simp_all add: pack_h_def)


lemma length_short_bytes: "length (short_bytes order w) = 2"
  by (cases order) (simp_all add: short_bytes_def)

lemma unpack_shorts_concat:
  "unpack_shorts order (concat (map (\<lambda>v. short_bytes order (word_of_int v)) vs)) =
   map (\<lambda>v. sint (word_of_int v :: 16 word)) vs"
proof (induction vs)
  case Nil
  then show ?case by simp
next
  case (Cons v vs)
  obtain b0 b1 where b: "short_bytes order (word_of_int v :: 16 word) = [b0, b1]"
    by (cases order) (simp_all add: short_bytes_def)
  then show ?case
    using Cons bytes_short_short_bytes [OF b] by (simp add: unpack_h_def)
qed

lemma calcsize_native_shorts_from:
  "even off \<Longrightarrow>
   foldl (\<lambda>off c. off + (code_align c - off mod code_align c) mod code_align c + code_size c)
     off (replicate n Short) = off + 2 * n"
proof (induction n arbitrary: off)
  case 0
  then show ?case by simp
next
  case (Suc n)
  from Suc.prems have m: "off mod 2 = 0" by presburger
  have "even (off + 2)" using Suc.prems by simp
  from Suc.IH [OF this] m show ?case by simp
qed

lemma calcsize_native_shorts: "calcsize_native (replicate n Short) = 2 * n"
  using calcsize_native_shorts_from [of 0 n] by (simp add: calcsize_native_def)


lemma slice_length_exact:
  assumes "i < n"
  shows "(L * n - i + n - 1) div n = (L::nat)"
proof (cases L)
  case 0
  with assms show ?thesis by simp
next
  case (Suc M)
  define r where "r = n - 1 - i"
  have r: "r < n" using assms by (simp add: r_def)
  from assms have "i \<le> L * n" using Suc by simp
  with assms have "L * n - i + n - 1 = r + L * n"
    unfolding r_def by arith
  moreover have "(r + L * n) div n = L"
    using r by simp
  ultimately show ?thesis by simp
qed

lemma length_py_slice_exact:
  assumes "i < n" and "length xs = L * n"
  shows "length (py_slice xs i n) = L"
proof -
  from assms have "0 < n" by simp
  then have "length (py_slice xs i n) = (L * n - i + n - 1) div n"
    by (simp only: length_py_slice assms)
  then show ?thesis by (simp only: slice_length_exact [OF assms(1)])
qed

lemma in_py_slice_iff:
  assumes "0 < n"
  shows "k < length (py_slice xs c n) \<longleftrightarrow> c + k * n < length xs"
proof -
  define m where "m = length xs - c"
  have "k < (m + n - 1) div n \<longleftrightarrow> Suc k \<le> (m + n - 1) div n" by auto
  also have "\<dots> \<longleftrightarrow> Suc k * n \<le> m + n - 1"
    using assms by (simp only: less_eq_div_iff_mult_less_eq)
  also have "\<dots> \<longleftrightarrow> k * n < m"
    using assms by auto
  also have "\<dots> \<longleftrightarrow> c + k * n < length xs"
    unfolding m_def by auto
  finally show ?thesis
    using assms by (simp only: length_py_slice m_def)
qed

lemma div_add_mult_small: "s < n \<Longrightarrow> (s + t * n) div n = (t::nat)"
  by simp

lemma slice_length_div_mod:
  assumes "c < n"
  shows "(len - c + n - 1) div n = len div n + (if c < len mod n then 1 else (0::nat))"
proof -
  define q where "q = len div n"
  define r where "r = len mod n"
  from assms have n: "0 < n" by arith
  have len: "len = r + q * n" by (simp add: q_def r_def)
  have r: "r < n" using n by (simp add: r_def)
  show ?thesis
  proof (cases "c < r")
    case True
    define s where "s = r - c - 1"
    have s: "s < n" using r by (simp add: s_def)
    have "len - c + n - 1 = s + Suc q * n"
      using True n unfolding len s_def by simp
    moreover have "(s + Suc q * n) div n = Suc q"
      using s by (rule div_add_mult_small)
    ultimately show ?thesis using True by (simp add: q_def r_def)
  next
    case False
    show ?thesis
    proof (cases "c \<le> len")
      case le: True
      define s where "s = n - 1 - (c - r)"
      have s: "s < n" using n by (simp add: s_def)
      have "c - r \<le> q * n" using le len by simp
      then have "len - c + n - 1 = s + q * n"
        using False assms unfolding len s_def by simp
      moreover have "(s + q * n) div n = q"
        using s by (rule div_add_mult_small)
      ultimately show ?thesis using False by (simp add: q_def r_def)
    next
      case gt: False
      then have "len < n" using assms by simp
      then have "q = 0" by (simp add: q_def)
      moreover have "(len - c + n - 1) div n = 0" using gt n by simp
      ultimately show ?thesis using False by (simp add: q_def r_def)
    qed
  qed
qed

lemma sum_list_lengths:
  "sum_list (map (\<lambda>c. q + (if c < r then 1 else 0)) [0..<m]) = m * q + min m (r::nat)"
  by (induction m) auto

lemma position_unique:
  assumes "c < n" and "c' < n" and "c' + k' * n = c + k * (n::nat)"
  shows "c' = c \<and> k' = k"
proof -
  have "(c' + k' * n) mod n = (c + k * n) mod n" by (simp only: assms(3))
  then have "c' mod n = c mod n" by simp
  with assms have c: "c' = c" by simp
  with assms have "k' * n = k * n" by simp
  with assms show ?thesis using c by simp
qed

lemma nth_separate_channels:
  "c < n \<Longrightarrow> separate_channels xs (int n) ! c = py_slice xs c n"
  by (simp add: separate_channels_def)

lemma length_channel:
  assumes "c < n"
  shows "length (separate_channels xs (int n) ! c) =
         length xs div n + (if c < length xs mod n then 1 else 0)"
proof -
  from assms have "0 < n" by arith
  then have "length (py_slice xs c n) = (length xs - c + n - 1) div n"
    by (rule length_py_slice)
  then show ?thesis
    using assms by (simp only: nth_separate_channels slice_length_div_mod)
qed

lemma sum_length_channels:
  assumes "0 < n"
  shows "sum_list (map length (separate_channels xs (int n))) = length xs"
proof -
  have "map length (separate_channels xs (int n)) =
        map (\<lambda>c. length (separate_channels xs (int n) ! c)) [0..<n]"
    by (rule nth_equalityI) (simp_all add: separate_channels_def)
  also have "\<dots> = map (\<lambda>c. length xs div n + (if c < length xs mod n then 1 else 0)) [0..<n]"
    by (rule map_cong [OF refl]) (simp add: length_channel)
  finally have "sum_list (map length (separate_channels xs (int n))) =
                n * (length xs div n) + min n (length xs mod n)"
    by (simp only: sum_list_lengths)
  moreover have "length xs mod n < n"
    using assms by (rule mod_less_divisor)
  then have "min n (length xs mod n) = length xs mod n"
    by (simp only: min_def) simp
  ultimately show ?thesis by simp
qed

section \<open>Rounding to a double\<close>

lemma round_even_bounds: "\<lfloor>y\<rfloor> \<le> round_even y \<and> round_even y \<le> \<lceil>y\<rceil>"
  unfolding round_even_def Let_def
  by (auto simp: ceiling_altdef)

lemma round_even_int: "round_even (of_int n) = n"
  by (simp add: round_even_def)

lemma two_powr_int: "(2::real) powr real_of_int k = 2 powi k"
  by (rule powr_real_of_int') simp_all

lemma floor_log2_eq:
  assumes "2 powi k \<le> x" and "x < 2 powi (k + 1)"
  shows "\<lfloor>log 2 x\<rfloor> = k"
proof -
  have "(0::real) < 2 powi k" by (rule zero_less_power_int) simp
  with assms(1) have pos: "0 < x" by linarith
  have "(2::real) powr (real_of_int k + 1) = 2 powr real_of_int (k + 1)" by simp
  also have "\<dots> = 2 powi (k + 1)" by (rule two_powr_int)
  finally have b: "(2::real) powr (real_of_int k + 1) = 2 powi (k + 1)" .
  have "2 powr real_of_int k \<le> x \<and> x < 2 powr (real_of_int k + 1)"
    unfolding b two_powr_int using assms by simp
  then show ?thesis
    using pos by (subst floor_log_eq_powr_iff) simp_all
qed

lemma floor_log2_bounds:
  assumes "0 < x"
  shows "2 powi \<lfloor>log 2 x\<rfloor> \<le> x \<and> x < 2 powi (\<lfloor>log 2 x\<rfloor> + 1)"
proof -
  have "(2::real) powr (real_of_int \<lfloor>log 2 x\<rfloor> + 1) = 2 powr real_of_int (\<lfloor>log 2 x\<rfloor> + 1)" by simp
  also have "\<dots> = 2 powi (\<lfloor>log 2 x\<rfloor> + 1)" by (rule two_powr_int)
  finally have b: "(2::real) powr (real_of_int \<lfloor>log 2 x\<rfloor> + 1) = 2 powi (\<lfloor>log 2 x\<rfloor> + 1)" .
  have "2 powr real_of_int \<lfloor>log 2 x\<rfloor> \<le> x \<and> x < 2 powr (real_of_int \<lfloor>log 2 x\<rfloor> + 1)"
    using assms floor_log_eq_powr_iff [of x 2 "\<lfloor>log 2 x\<rfloor>"] by simp
  then show ?thesis unfolding b two_powr_int .
qed

lemma binade_eq:
  assumes "2 powi k \<le> \<bar>x\<bar>" and "\<bar>x\<bar> < 2 powi (k + 1)" and "- 1022 \<le> k"
  shows "binade x = k"
  using floor_log2_eq [OF assms(1,2)] assms(3) by (simp add: binade_def)

lemma binade_ge: "- 1022 \<le> binade x"
  by (simp add: binade_def)

lemma binade_lower:
  assumes "- 1022 < binade x" and "x \<noteq> 0"
  shows "2 powi binade x \<le> \<bar>x\<bar>"
proof -
  from assms(1) have "binade x = \<lfloor>log 2 \<bar>x\<bar>\<rfloor>" by (simp add: binade_def max_def split: if_splits)
  then show ?thesis using floor_log2_bounds [of "\<bar>x\<bar>"] assms(2) by simp
qed

lemma binade_upper:
  assumes "x \<noteq> 0"
  shows "\<bar>x\<bar> < 2 powi (binade x + 1)"
proof -
  have le: "\<lfloor>log 2 \<bar>x\<bar>\<rfloor> \<le> binade x" by (simp add: binade_def)
  have "\<bar>x\<bar> < 2 powi (\<lfloor>log 2 \<bar>x\<bar>\<rfloor> + 1)"
    using floor_log2_bounds [of "\<bar>x\<bar>"] assms by simp
  also have "\<dots> \<le> 2 powi (binade x + 1)"
    using le by (intro power_int_increasing) simp_all
  finally show ?thesis .
qed

lemma binade_le:
  assumes "x \<noteq> 0" and "\<bar>x\<bar> < 2 powi (k + 1)" and "- 1022 \<le> k"
  shows "binade x \<le> k"
proof (rule ccontr)
  assume "\<not> binade x \<le> k"
  then have gt: "k + 1 \<le> binade x" by simp
  with assms(3) have "- 1022 < binade x" by simp
  from binade_lower [OF this assms(1)] have "2 powi binade x \<le> \<bar>x\<bar>" .
  moreover have "(2::real) powi (k + 1) \<le> 2 powi binade x"
    using gt by (intro power_int_increasing) simp_all
  ultimately show False using assms(2) by linarith
qed

lemma quantum_pos: "0 < quantum x"
  unfolding quantum_def by (rule zero_less_power_int) simp

lemma quantum_inverse:
  assumes "binade x = 52 - int j - int i"
  shows "quantum x * 2 ^ (j + i) = 1"
proof -
  have "quantum x = 2 powi (- int (j + i))"
    using assms by (simp add: quantum_def)
  also have "\<dots> = inverse (2 ^ (j + i))"
    by (simp only: power_int_minus power_int_of_nat)
  finally show ?thesis by simp
qed

lemma dyadic_over_quantum:
  assumes "binade x = 52 - int j - int i" and "c = of_int n / 2 ^ j"
  shows "c / quantum x = of_int (n * 2 ^ i)"
proof -
  have "c = of_int (n * 2 ^ i) * quantum x"
  proof -
    have "of_int (n * 2 ^ i) * quantum x = of_int n * (quantum x * 2 ^ i)" by simp
    also have "quantum x * 2 ^ i = 1 / 2 ^ j"
      using quantum_inverse [OF assms(1)] by (simp add: power_add field_simps)
    finally show ?thesis using assms(2) by simp
  qed
  then show ?thesis using quantum_pos [of x] by simp
qed

lemma mag_normal_ge:
  assumes "- 1022 < binade x" and "x \<noteq> 0"
  shows "2 powi binade x \<le> mag x"
proof -
  have q: "0 < quantum x" by (rule quantum_pos)
  have "(2::real) powi (52 + (binade x - 52)) = 2 powi 52 * 2 powi (binade x - 52)"
    by (rule power_int_add) simp
  then have e: "(2::real) powi binade x = 2 ^ 52 * quantum x"
    by (simp add: quantum_def)
  from binade_lower [OF assms] have "2 ^ 52 * quantum x \<le> \<bar>x\<bar>" by (simp only: e)
  then have "of_int (2 ^ 52) \<le> \<bar>x\<bar> / quantum x"
    using q by (simp add: pos_le_divide_eq)
  then have "2 ^ 52 \<le> \<lfloor>\<bar>x\<bar> / quantum x\<rfloor>" by (simp only: le_floor_iff)
  with round_even_bounds [of "\<bar>x\<bar> / quantum x"]
  have "(2 ^ 52 :: int) \<le> round_even (\<bar>x\<bar> / quantum x)" by linarith
  then have "(2 ^ 52 :: real) \<le> of_int (round_even (\<bar>x\<bar> / quantum x))"
    by (metis of_int_le_iff of_int_numeral of_int_power)
  then show ?thesis
    unfolding e mag_def using q by (simp add: mult_right_mono)
qed

lemma fence_lower:
  assumes "x \<noteq> 0" and "c \<le> \<bar>x\<bar>" and "c = of_int n / 2 ^ j" and "c < 2 ^ u" and "j + u \<le> 53"
  shows "c \<le> mag x"
proof (cases "binade x \<le> 52 - int j")
  case True
  define i where "i = nat (52 - int j - binade x)"
  have e: "binade x = 52 - int j - int i" using True by (simp add: i_def)
  have q: "0 < quantum x" by (rule quantum_pos)
  have cq: "c / quantum x = of_int (n * 2 ^ i)" using e assms(3) by (rule dyadic_over_quantum)
  from assms(2) q have "c / quantum x \<le> \<bar>x\<bar> / quantum x" by (simp add: divide_right_mono)
  then have "n * 2 ^ i \<le> \<lfloor>\<bar>x\<bar> / quantum x\<rfloor>" by (simp only: cq le_floor_iff)
  with round_even_bounds [of "\<bar>x\<bar> / quantum x"]
  have "n * 2 ^ i \<le> round_even (\<bar>x\<bar> / quantum x)" by linarith
  then have "of_int (n * 2 ^ i) * quantum x \<le> mag x"
    unfolding mag_def using q by (simp only: mult_le_cancel_right_pos of_int_le_iff)
  moreover have "c = of_int (n * 2 ^ i) * quantum x"
    using cq q by (simp add: field_simps)
  ultimately show ?thesis by simp
next
  case False
  then have big: "int u \<le> binade x" using assms(5) by linarith
  then have "- 1022 < binade x" by linarith
  from mag_normal_ge [OF this assms(1)] have "2 powi binade x \<le> mag x" .
  moreover have "(2::real) powi int u \<le> 2 powi binade x"
    using big by (intro power_int_increasing) simp_all
  ultimately show ?thesis using assms(4) by (simp add: power_int_of_nat)
qed

lemma fence_upper:
  assumes "x \<noteq> 0" and "\<bar>x\<bar> \<le> c" and "c = of_int n / 2 ^ j" and "c < 2 ^ u" and "j + u \<le> 53"
  shows "mag x \<le> c"
proof -
  have "\<bar>x\<bar> < 2 powi (int u - 1 + 1)" using assms(2,4) by (simp add: power_int_of_nat)
  moreover have "- 1022 \<le> int u - 1" by simp
  ultimately have "binade x \<le> int u - 1" using assms(1) by (intro binade_le)
  then have le: "binade x \<le> 52 - int j" using assms(5) by linarith
  define i where "i = nat (52 - int j - binade x)"
  have e: "binade x = 52 - int j - int i" using le by (simp add: i_def)
  have q: "0 < quantum x" by (rule quantum_pos)
  have cq: "c / quantum x = of_int (n * 2 ^ i)" using e assms(3) by (rule dyadic_over_quantum)
  from assms(2) q have "\<bar>x\<bar> / quantum x \<le> c / quantum x" by (simp add: divide_right_mono)
  then have "\<lceil>\<bar>x\<bar> / quantum x\<rceil> \<le> n * 2 ^ i" by (simp only: cq ceiling_le_iff)
  with round_even_bounds [of "\<bar>x\<bar> / quantum x"]
  have "round_even (\<bar>x\<bar> / quantum x) \<le> n * 2 ^ i" by linarith
  then have "mag x \<le> of_int (n * 2 ^ i) * quantum x"
    unfolding mag_def using q by (simp only: mult_le_cancel_right_pos of_int_le_iff)
  moreover have "c = of_int (n * 2 ^ i) * quantum x"
    using cq q by (simp add: field_simps)
  ultimately show ?thesis by simp
qed

lemma mag_minus: "mag (- x) = mag x"
  by (simp add: mag_def quantum_def binade_def)

lemma pow_le_huge: "u \<le> 1024 \<Longrightarrow> 2 ^ u \<le> huge"
  unfolding huge_def by (rule power_increasing) simp_all

lemma huge_le_powi:
  assumes "1024 \<le> e"
  shows "huge \<le> 2 powi e"
proof -
  from assms have "0 \<le> e" by simp
  then have "(2::real) powi e = 2 ^ nat e" by (rule power_int_nonneg_exp)
  moreover have "(2::real) ^ 1024 \<le> 2 ^ nat e"
    using assms by (intro power_increasing) simp_all
  ultimately show ?thesis by (simp only: huge_def)
qed

lemma powi_lt_huge:
  assumes "e \<le> 1024" and "x < 2 powi e"
  shows "x < huge"
proof (cases "0 \<le> e")
  case True
  then have "(2::real) powi e = 2 ^ nat e" by (rule power_int_nonneg_exp)
  moreover have "(2::real) ^ nat e \<le> huge" using assms(1) by (intro pow_le_huge) simp
  ultimately show ?thesis using assms(2) by linarith
next
  case False
  then have "(2::real) powi e \<le> 2 powi 0" by (intro power_int_increasing) simp_all
  then have "x < 1" using assms(2) by simp
  moreover have "(2::real) ^ 0 \<le> huge" by (rule pow_le_huge) simp
  ultimately show ?thesis by simp
qed

lemma round_double_mag:
  "x \<noteq> 0 \<Longrightarrow> round_double x =
     (if huge \<le> mag x then (if 0 < x then PosInf else NegInf)
      else Finite (sgn x * mag x))"
  by (simp add: round_double_def mag_def Let_def)

lemma round_double_minus: "round_double (- x) = negate (round_double x)"
proof (cases "x = 0")
  case True
  then show ?thesis by (simp add: round_double_def)
next
  case False
  then show ?thesis
    by (simp add: round_double_mag mag_minus sgn_if)
qed

lemma round_double_between_pos:
  assumes "0 \<le> c" and "c \<le> x" and "x \<le> d"
    and "c = of_int n / 2 ^ j" and "d = of_int n' / 2 ^ j'"
    and "d < 2 ^ u" and "j + u \<le> 53" and "j' + u \<le> 53"
  shows "\<exists>r. round_double x = Finite r \<and> c \<le> r \<and> r \<le> d"
proof (cases "x = 0")
  case True
  with assms(1,2,3) have "c \<le> 0" and "0 \<le> d" by simp_all
  with True show ?thesis by (simp add: round_double_def)
next
  case False
  with assms(1,2) have pos: "0 < x" by simp
  then have cx: "c \<le> \<bar>x\<bar>" and xd: "\<bar>x\<bar> \<le> d" using assms(2,3) by simp_all
  have c: "c < 2 ^ u" using assms(2,3,6) by linarith
  have lo: "c \<le> mag x"
    using False cx assms(4) c assms(7) by (rule fence_lower)
  have hi: "mag x \<le> d"
    using False xd assms(5) assms(6) assms(8) by (rule fence_upper)
  have "u \<le> 1024" using assms(7) by simp
  then have "(2::real) ^ u \<le> huge" by (rule pow_le_huge)
  then have "\<not> huge \<le> mag x" using hi assms(6) by linarith
  then have "round_double x = Finite (mag x)"
    using False pos by (simp add: round_double_mag)
  with lo hi show ?thesis by simp
qed

lemma round_double_exact:
  assumes "x = of_int n / 2 ^ j" and "\<bar>x\<bar> < 2 ^ u" and "j + u \<le> 53"
  shows "round_double x = Finite x"
proof (cases "0 \<le> x")
  case True
  then have b: "x < 2 ^ u" using assms(2) by simp
  from round_double_between_pos [OF True order_refl order_refl assms(1) assms(1) b assms(3) assms(3)]
  show ?thesis by auto
next
  case False
  then have pos: "0 \<le> - x" by simp
  have m: "- x = of_int (- n) / 2 ^ j" using assms(1) by simp
  have b: "- x < 2 ^ u" using assms(2) by simp
  from round_double_between_pos [OF pos order_refl order_refl m m b assms(3) assms(3)]
  have "round_double (- x) = Finite (- x)" by auto
  then have "negate (round_double x) = Finite (- x)" by (simp only: round_double_minus)
  then show ?thesis by (cases "round_double x") simp_all
qed

lemma round_double_int:
  assumes "\<bar>n\<bar> \<le> 2 ^ 52"
  shows "round_double (of_int n) = Finite (of_int n)"
proof -
  have "\<bar>real_of_int n\<bar> \<le> 2 ^ 52"
    using assms by (metis of_int_abs of_int_le_iff of_int_numeral of_int_power)
  then have "\<bar>real_of_int n\<bar> < 2 ^ 53" by simp
  then show ?thesis
    by (intro round_double_exact [where n = n and j = 0 and u = 53]) simp_all
qed

lemma round_double_overflow:
  assumes "huge \<le> \<bar>x\<bar>"
  shows "round_double x = (if 0 < x then PosInf else NegInf)"
proof -
  have "(2::real) ^ 0 \<le> huge" by (rule pow_le_huge) simp
  with assms have nz: "x \<noteq> 0" by auto
  have e: "1024 \<le> binade x"
  proof (rule ccontr)
    assume "\<not> 1024 \<le> binade x"
    then have "binade x + 1 \<le> 1024" by simp
    from powi_lt_huge [OF this binade_upper [OF nz]] assms show False by linarith
  qed
  then have "- 1022 < binade x" by simp
  from mag_normal_ge [OF this nz] huge_le_powi [OF e]
  have "huge \<le> mag x" by linarith
  then show ?thesis using nz by (simp add: round_double_mag)
qed

lemma trunc_zero_minus: "trunc_zero (- x) = - trunc_zero x"
  by (auto simp: trunc_zero_def ceiling_def)

lemma round_floor:
  assumes "0 \<le> x" and "x < 2 ^ 52"
  shows "\<exists>r. round_double x = Finite r \<and> of_int \<lfloor>x\<rfloor> \<le> r \<and> r \<le> of_int \<lfloor>x\<rfloor> + 1 \<and>
             \<bar>real_of_int (trunc_zero r) - x\<bar> < 1"
proof -
  define k where "k = \<lfloor>x\<rfloor>"
  have k0: "0 \<le> k" using assms(1) by (simp add: k_def)
  have kx: "of_int k \<le> x" and xk: "x < of_int k + 1" by (simp_all add: k_def)
  have "k < 2 ^ 52" using assms(2) by (simp add: k_def floor_less_iff)
  then have "k + 1 \<le> 2 ^ 52" by simp
  then have "real_of_int (k + 1) \<le> 2 ^ 52"
    by (metis of_int_le_iff of_int_numeral of_int_power)
  then have d: "real_of_int (k + 1) < 2 ^ 53" by simp
  have c0: "0 \<le> real_of_int k" using k0 by simp
  have xd: "x \<le> real_of_int (k + 1)" using xk by simp
  from round_double_between_pos [OF c0 kx xd, of k 0 "k + 1" 0 53] d
  obtain r where r: "round_double x = Finite r" and lo: "of_int k \<le> r" and hi: "r \<le> of_int (k + 1)"
    by auto
  have r0: "0 \<le> r" using lo c0 by linarith
  have fl: "k \<le> \<lfloor>r\<rfloor>" using lo by (simp add: le_floor_iff)
  have fu: "\<lfloor>r\<rfloor> \<le> k + 1" using hi by (metis floor_mono floor_of_int)
  have close: "\<bar>real_of_int \<lfloor>r\<rfloor> - x\<bar> < 1"
  proof (cases "\<lfloor>r\<rfloor> = k")
    case True
    then show ?thesis using kx xk by simp
  next
    case False
    with fl fu have up: "\<lfloor>r\<rfloor> = k + 1" by linarith
    have "x \<noteq> of_int k"
    proof
      assume eq: "x = of_int k"
      from round_double_between_pos [OF c0 kx, of "of_int k" k 0 k 0 53] eq d
      have "round_double x = Finite (of_int k)" by auto
      with r have "r = of_int k" by simp
      with up show False by simp
    qed
    with kx have "of_int k < x" by simp
    with xk up show ?thesis by simp
  qed
  from r lo hi close r0 show ?thesis
    by (auto simp: trunc_zero_def k_def)
qed

lemma round_trunc_close:
  assumes "\<bar>x\<bar> < 2 ^ 52"
  shows "\<exists>r. round_double x = Finite r \<and> \<bar>real_of_int (trunc_zero r) - x\<bar> < 1"
proof (cases "0 \<le> x")
  case True
  with assms round_floor [of x] show ?thesis by auto
next
  case False
  then have "0 \<le> - x" and "- x < 2 ^ 52" using assms by simp_all
  from round_floor [OF this]
  obtain r where r: "round_double (- x) = Finite r"
    and c: "\<bar>real_of_int (trunc_zero r) - (- x)\<bar> < 1" by auto
  from r have "negate (round_double x) = Finite r" by (simp only: round_double_minus)
  then have "round_double x = Finite (- r)" by (cases "round_double x") auto
  moreover have "\<bar>real_of_int (trunc_zero (- r)) - x\<bar> < 1"
    using c by (simp add: trunc_zero_minus)
  ultimately show ?thesis by blast
qed

lemma round_bounded:
  assumes "\<bar>x\<bar> \<le> of_int N" and "N < 2 ^ 52"
  shows "\<exists>r. round_double x = Finite r \<and> \<bar>r\<bar> \<le> of_int N"
proof -
  have "real_of_int N < 2 ^ 52"
    using assms(2) by (metis of_int_less_iff of_int_numeral of_int_power)
  then have d: "real_of_int N < 2 ^ 53" by simp
  show ?thesis
  proof (cases "0 \<le> x")
    case True
    with assms have "x \<le> of_int N" by simp
    from round_double_between_pos [OF order_refl True this, of 0 0 N 0 53] d
    show ?thesis by auto
  next
    case False
    then have p: "0 \<le> - x" by simp
    from False assms have "- x \<le> of_int N" by simp
    from round_double_between_pos [OF order_refl p this, of 0 0 N 0 53] d
    obtain r where r: "round_double (- x) = Finite r" and b: "0 \<le> r" "r \<le> of_int N" by auto
    from r have "negate (round_double x) = Finite r" by (simp only: round_double_minus)
    then have "round_double x = Finite (- r)" by (cases "round_double x") auto
    with b show ?thesis by auto
  qed
qed

lemma trunc_zero_abs_le:
  assumes "\<bar>r\<bar> \<le> of_int N"
  shows "- N \<le> trunc_zero r \<and> trunc_zero r \<le> N"
  using assms unfolding trunc_zero_def
  by (auto simp: le_floor_iff floor_le_iff ceiling_le_iff le_ceiling_iff)




lemma round_double_sample:
  "round_double (8988506986626047 / 2 ^ 53 * 32767) = Finite 32699"
proof -
  define x :: real where "x = 8988506986626047 / 2 ^ 53 * 32767"
  have b: "binade x = 14"
    by (rule binade_eq) (simp_all add: x_def)
  have q: "quantum x = 1 / 2 ^ 38"
    by (simp add: quantum_def b power_int_minus)
  have y: "\<bar>x\<bar> / quantum x = 294526408430775682049 / 32768"
    unfolding q by (simp add: x_def)
  have f: "\<lfloor>294526408430775682049 / 32768 :: real\<rfloor> = 8988232679161855"
    by simp
  have m: "round_even (\<bar>x\<bar> / quantum x) = 8988232679161856"
    unfolding y round_even_def Let_def f by simp
  have "mag x = of_int 8988232679161856 * quantum x"
    by (simp only: mag_def m)
  then have mg: "mag x = 32699"
    by (simp add: q)
  have "(2::real) ^ 15 \<le> huge" by (rule pow_le_huge) simp
  with mg have "\<not> huge \<le> mag x" by simp
  moreover have "x \<noteq> 0" and "0 < x" by (simp_all add: x_def)
  ultimately have "round_double x = Finite 32699"
    using mg by (simp add: round_double_mag)
  then show ?thesis by (simp only: x_def)
qed

lemma round_double_above_one:
  "round_double (35185445863425 / 2 ^ 45 * 32767) = Finite 32768"
proof -
  define x :: real where "x = 35185445863425 / 2 ^ 45 * 32767"
  have b: "binade x = 14"
    by (rule binade_eq) (simp_all add: x_def)
  have q: "quantum x = 1 / 2 ^ 38"
    by (simp add: quantum_def b power_int_minus)
  have y: "\<bar>x\<bar> / quantum x = 1152921504606846975 / 128"
    unfolding q by (simp add: x_def)
  have f: "\<lfloor>1152921504606846975 / 128 :: real\<rfloor> = 9007199254740991"
    by simp
  have m: "round_even (\<bar>x\<bar> / quantum x) = 9007199254740992"
    unfolding y round_even_def Let_def f by simp
  have "mag x = of_int 9007199254740992 * quantum x"
    by (simp only: mag_def m)
  then have mg: "mag x = 32768"
    by (simp add: q)
  have "(2::real) ^ 16 \<le> huge" by (rule pow_le_huge) simp
  with mg have "\<not> huge \<le> mag x" by simp
  moreover have "x \<noteq> 0" and "0 < x" by (simp_all add: x_def)
  ultimately have "round_double x = Finite 32768"
    using mg by (simp add: round_double_mag)
  then show ?thesis by (simp only: x_def)
qed

section \<open>Constants and header sizes\<close>

lemma MAX_SAMPLE_VALUE_eq: "MAX_SAMPLE_VALUE = 32767"
  by (simp add: MAX_SAMPLE_VALUE_def SAMPLE_BITS_def)

lemma SAMPLE_WIDTH_eq: "SAMPLE_WIDTH = 2"
  by (simp add: SAMPLE_WIDTH_def SAMPLE_BITS_def)

lemma SAMPLING_FREQ_eq: "SAMPLING_FREQ = 44100"
  by (simp add: SAMPLING_FREQ_def)

lemma calcsize_headers: "calcsize_std WAVE_FILE_HEADERS_STRUCT = 44"
  by (simp add: calcsize_std_def WAVE_FILE_HEADERS_STRUCT_def RIFF_HEADER_STRUCT_def
      FORMAT_HEADER_STRUCT_def DATA_HEADER_STRUCT_def)

lemma calcsize_format: "calcsize_native FORMAT_HEADER_STRUCT = 24"
  by (simp add: calcsize_native_def FORMAT_HEADER_STRUCT_def)

section \<open>The codec on lists\<close>

lemma collect_all_Inr:
  assumes "\<forall>x \<in> set xs. f x = Inr (g x)"
  shows "collect (map f xs) = Inr (map g xs)"
  using assms by (induction xs) simp_all



lemma float_mul_exact:
  assumes "x * y = of_int n / 2 ^ j" and "\<bar>x * y\<bar> < 2 ^ u" and "j + u \<le> 53"
  shows "float_mul x y = Finite (x * y)"
  unfolding float_mul_def using assms by (rule round_double_exact)

lemma scaled_unit:
  assumes "- 1 \<le> s" and "s \<le> 1"
  shows "\<exists>r. float_mul s (real_of_int MAX_SAMPLE_VALUE) = Finite r \<and>
             - 32767 \<le> trunc_zero r \<and> trunc_zero r \<le> 32767 \<and>
             \<bar>real_of_int (trunc_zero r) - s * 32767\<bar> < 1"
proof -
  have b: "\<bar>s * 32767\<bar> \<le> real_of_int 32767"
    using assms by (simp add: abs_le_iff)
  then have "\<bar>s * 32767\<bar> < 2 ^ 52" by simp
  from round_trunc_close [OF this]
  obtain r where r: "round_double (s * 32767) = Finite r"
    and c: "\<bar>real_of_int (trunc_zero r) - s * 32767\<bar> < 1" by auto
  from round_bounded [OF b] r have "\<bar>r\<bar> \<le> real_of_int 32767" by auto
  from trunc_zero_abs_le [OF this] r c show ?thesis
    by (simp add: float_mul_def MAX_SAMPLE_VALUE_eq)
qed

lemma convert_to_bytes_fits:
  assumes "\<forall>s \<in> set samples. \<exists>v. py_int (float_mul s (real_of_int MAX_SAMPLE_VALUE)) = Inr v \<and>
                                    - 32768 \<le> v \<and> v \<le> 32767"
  shows "\<exists>vs. collect (map (\<lambda>s. py_int (float_mul s (real_of_int MAX_SAMPLE_VALUE))) samples) = Inr vs \<and>
          length vs = length samples \<and>
          (\<forall>v \<in> set vs. - 32768 \<le> v \<and> v \<le> 32767) \<and>
          (\<forall>i < length samples.
             py_int (float_mul (samples ! i) (real_of_int MAX_SAMPLE_VALUE)) = Inr (vs ! i)) \<and>
          convert_to_bytes order samples =
            Inr (concat (map (\<lambda>v. short_bytes order (word_of_int v)) vs))"
proof -
  define f where "f = (\<lambda>s. py_int (float_mul s (real_of_int MAX_SAMPLE_VALUE)))"
  define g where "g = (\<lambda>s. projr (f s))"
  have fg: "\<forall>s \<in> set samples. f s = Inr (g s)"
    using assms by (auto simp: f_def g_def)
  then have col: "collect (map f samples) = Inr (map g samples)"
    by (rule collect_all_Inr)
  have rng: "\<forall>v \<in> set (map g samples). - 32768 \<le> v \<and> v \<le> 32767"
    using assms by (auto simp: f_def g_def)
  have "convert_to_bytes order samples =
          Inr (concat (map (\<lambda>v. short_bytes order (word_of_int v)) (map g samples)))"
    unfolding convert_to_bytes_def f_def [symmetric] col struct_pack_h_def
    using pack_all_pack_h_ok [OF rng] by simp
  moreover have "\<forall>i < length samples. f (samples ! i) = Inr (map g samples ! i)"
    using fg by simp
  ultimately show ?thesis
    using col rng unfolding f_def by (intro exI [of _ "map g samples"]) simp
qed

lemma length_concat_shorts:
  "length (concat (map (\<lambda>v. short_bytes order (word_of_int v)) vs)) = 2 * length vs"
  by (induction vs) (simp_all add: length_short_bytes)

lemma unpack_h_native: "unpack_h order b0 b1 = native_int16 order b0 b1"
  by (cases order)
     (simp_all add: unpack_h_def bytes_short_def native_int16_def le_int16_def sint_16
        uint_word_cat Let_def)

lemma convert_to_samples_even:
  assumes "length bs = 2 * n"
  shows "convert_to_samples order bs =
         Inr (map (\<lambda>v. real_of_int v / real_of_int MAX_SAMPLE_VALUE) (unpack_shorts order bs))"
  using assms
  by (simp add: convert_to_samples_def struct_unpack_h_def SAMPLE_WIDTH_eq calcsize_native_shorts)


lemma decode_encoded:
  assumes "\<forall>v \<in> set vs. - 32768 \<le> v \<and> v \<le> 32767"
  shows "convert_to_samples order (concat (map (\<lambda>v. short_bytes order (word_of_int v)) vs)) =
         Inr (map (\<lambda>v. real_of_int v / real_of_int MAX_SAMPLE_VALUE) vs)"
proof -
  have "map (\<lambda>v. sint (word_of_int v :: 16 word)) vs = vs"
    using assms by (induction vs) (simp_all add: sint_word_of_int_16)
  then show ?thesis
    by (simp only: convert_to_samples_even [OF length_concat_shorts] unpack_shorts_concat)
qed


lemma fits_of_unit:
  assumes "\<forall>s \<in> set samples. - 1 \<le> s \<and> s \<le> 1"
  shows "\<forall>s \<in> set samples. \<exists>v. py_int (float_mul s (real_of_int MAX_SAMPLE_VALUE)) = Inr v \<and>
                                    - 32768 \<le> v \<and> v \<le> 32767"
proof
  fix s assume "s \<in> set samples"
  with assms have "- 1 \<le> s" and "s \<le> 1" by auto
  from scaled_unit [OF this]
  obtain r where "float_mul s (real_of_int MAX_SAMPLE_VALUE) = Finite r"
    and "- 32767 \<le> trunc_zero r" and "trunc_zero r \<le> 32767" by blast
  then show "\<exists>v. py_int (float_mul s (real_of_int MAX_SAMPLE_VALUE)) = Inr v \<and>
                 - 32768 \<le> v \<and> v \<le> 32767"
    by simp
qed

lemma py_int_between:
  assumes "0 \<le> c" and "c \<le> x * y" and "x * y \<le> d"
    and "c = of_int n / 2 ^ j" and "d = of_int n' / 2 ^ j'"
    and "d < 2 ^ u" and "j + u \<le> 53" and "j' + u \<le> 53"
    and "of_int k \<le> c" and "d < of_int k + 1"
  shows "py_int (float_mul x y) = Inr k"
proof -
  from round_double_between_pos [OF assms(1-8)]
  obtain r where r: "round_double (x * y) = Finite r" and lo: "c \<le> r" and hi: "r \<le> d"
    by blast
  have "0 \<le> r" using assms(1) lo by linarith
  moreover have "\<lfloor>r\<rfloor> = k"
    using lo hi assms(9,10) by (intro floor_unique) linarith+
  ultimately show ?thesis by (simp add: float_mul_def r trunc_zero_def)
qed

lemma py_int_exact:
  assumes "x * y = of_int n / 2 ^ j" and "\<bar>x * y\<bar> < 2 ^ u" and "j + u \<le> 53"
  shows "py_int (float_mul x y) = Inr (trunc_zero (x * y))"
  by (simp add: float_mul_exact [OF assms])

lemma scaled_four_fifths:
  "py_int (float_mul (4 / 5) (real_of_int MAX_SAMPLE_VALUE)) = Inr 26213"
  unfolding MAX_SAMPLE_VALUE_eq
  by (rule py_int_between [where c = "52427 / 2" and d = "104855 / 4" and n = 52427 and j = 1
        and n' = 104855 and j' = 2 and u = 15]) simp_all

lemma scaled_half:
  "py_int (float_mul (1 / 2) (real_of_int MAX_SAMPLE_VALUE)) = Inr 16383"
  unfolding MAX_SAMPLE_VALUE_eq
  using py_int_exact [of "1 / 2" 32767 32767 1 15] by (simp add: trunc_zero_def)



lemma scaled_two:
  "py_int (float_mul 2 (real_of_int MAX_SAMPLE_VALUE)) = Inr 65534"
  unfolding MAX_SAMPLE_VALUE_eq
  using py_int_exact [of 2 32767 65534 0 16] by (simp add: trunc_zero_def)


lemma scaled_overflow_decimal:
  "float_mul (10 ^ 305) (real_of_int MAX_SAMPLE_VALUE) = PosInf"
proof -
  have "(2::real) ^ 1024 \<le> 10 ^ 305 * 32767" by simp
  moreover have "(0::real) \<le> 10 ^ 305 * 32767" by simp
  ultimately have "huge \<le> \<bar>10 ^ 305 * 32767 :: real\<bar>"
    by (simp only: huge_def abs_of_nonneg)
  from round_double_overflow [OF this] have "round_double (10 ^ 305 * 32767) = PosInf"
    by simp
  then show ?thesis
    by (simp only: float_mul_def MAX_SAMPLE_VALUE_eq of_int_numeral)
qed

lemma convert_to_bytes_overflow_decimal:
  "convert_to_bytes order [2, 10 ^ 305] = Inl OverflowError"
  by (simp only: convert_to_bytes_def list.map collect.simps scaled_two scaled_overflow_decimal
      py_int.simps sum.case)

lemma convert_to_bytes_four_fifths:
  "convert_to_bytes LittleEndian [4 / 5] = Inr [101, 102]"
  by (simp add: convert_to_bytes_def scaled_four_fifths struct_pack_h_def pack_h_def
      short_bytes_def)

lemma convert_to_samples_four_fifths:
  "convert_to_samples LittleEndian [101, 102] = Inr [26213 / 32767]"
  by (simp add: convert_to_samples_even [of _ 1] unpack_h_native native_int16_def le_int16_def
      MAX_SAMPLE_VALUE_eq)

lemma convert_to_bytes_rounded_product:
  "\<lfloor>8988506986626047 / 2 ^ 53 * 32767 :: real\<rfloor> = 32698 \<and>
   convert_to_bytes LittleEndian [8988506986626047 / 2 ^ 53] = Inr [187, 127]"
proof -
  have "py_int (float_mul (8988506986626047 / 2 ^ 53) (real_of_int MAX_SAMPLE_VALUE)) = Inr 32699"
    by (simp only: float_mul_def MAX_SAMPLE_VALUE_eq of_int_numeral round_double_sample)
       (simp add: trunc_zero_def)
  then have "convert_to_bytes LittleEndian [8988506986626047 / 2 ^ 53] = Inr [187, 127]"
    by (simp add: convert_to_bytes_def struct_pack_h_def pack_h_def short_bytes_def)
  moreover have "\<lfloor>8988506986626047 / 2 ^ 53 * 32767 :: real\<rfloor> = 32698"
    by simp
  ultimately show ?thesis by simp
qed

lemma convert_to_bytes_rounds_out_of_range:
  "\<lfloor>35185445863425 / 2 ^ 45 * 32767 :: real\<rfloor> = 32767 \<and>
   convert_to_bytes LittleEndian [35185445863425 / 2 ^ 45] = Inl StructError"
proof -
  have "py_int (float_mul (35185445863425 / 2 ^ 45) (real_of_int MAX_SAMPLE_VALUE)) = Inr 32768"
    by (simp only: float_mul_def MAX_SAMPLE_VALUE_eq of_int_numeral round_double_above_one)
       (simp add: trunc_zero_def)
  then have "convert_to_bytes LittleEndian [35185445863425 / 2 ^ 45] = Inl StructError"
    by (simp add: convert_to_bytes_def struct_pack_h_def pack_h_def)
  moreover have "\<lfloor>35185445863425 / 2 ^ 45 * 32767 :: real\<rfloor> = 32767"
    by simp
  ultimately show ?thesis by simp
qed



lemma pack_I_Inr: "pack_I v = Inr bs \<Longrightarrow> length bs = 4"
  by (auto simp: pack_I_def int_bytes_def split: if_splits)

lemma pack_headers_create:
  assumes "pack_headers (create_headers n) = Inr hb"
  shows "\<exists>fs ds. length fs = 4 \<and> length ds = 4 \<and>
     hb = [82, 73, 70, 70] @ fs @ [87, 65, 86, 69, 102, 109, 116, 32, 16, 0, 0, 0, 1, 0, 2, 0,
             68, 172, 0, 0, 136, 88, 1, 0, 2, 0, 16, 0, 100, 97, 116, 97] @ ds"
proof -
  have s: "pack_s 4 (bytes_of ''RIFF'') = Inr [82, 73, 70, 70]"
    "pack_s 4 (bytes_of ''WAVE'') = Inr [87, 65, 86, 69]"
    "pack_s 4 (bytes_of ''fmt '') = Inr [102, 109, 116, 32]"
    "pack_s 4 (bytes_of ''data'') = Inr [100, 97, 116, 97]"
    by (simp_all add: pack_s_def bytes_of_def)
  have i: "pack_I 16 = Inr [16, 0, 0, 0]" "pack_I 44100 = Inr [68, 172, 0, 0]"
    "pack_I 88200 = Inr [136, 88, 1, 0]"
    by (simp_all add: pack_I_def int_bytes_def)
  have h: "pack_H 1 = Inr [1, 0]" "pack_H 2 = Inr [2, 0]" "pack_H 16 = Inr [16, 0]"
    by (simp_all add: pack_H_def short_bytes_def)
  obtain fs where fs: "pack_I (36 + n * 2) = Inr fs"
    using assms
    by (cases "pack_I (36 + n * 2)")
       (simp_all add: pack_headers_def create_headers_def Let_def calcsize_headers
          SAMPLE_WIDTH_eq s)
  obtain ds where ds: "pack_I (n * 2) = Inr ds"
    using assms
    by (cases "pack_I (n * 2)")
       (simp_all add: pack_headers_def create_headers_def Let_def calcsize_headers calcsize_format
          SAMPLE_WIDTH_eq SAMPLING_FREQ_eq SAMPLE_BITS_def s i h fs)
  have "hb = [82, 73, 70, 70] @ fs @ [87, 65, 86, 69, 102, 109, 116, 32, 16, 0, 0, 0, 1, 0, 2, 0,
             68, 172, 0, 0, 136, 88, 1, 0, 2, 0, 16, 0, 100, 97, 116, 97] @ ds"
    using assms
    by (simp add: pack_headers_def create_headers_def Let_def calcsize_headers calcsize_format
          SAMPLE_WIDTH_eq SAMPLING_FREQ_eq SAMPLE_BITS_def s i h fs ds)
  with pack_I_Inr [OF fs] pack_I_Inr [OF ds] show ?thesis by blast
qed

lemma encode_wave_data_headers:
  assumes "encode_wave_data order samples = Inr (hb, db)"
  shows "pack_headers (create_headers (int (length samples))) = Inr hb"
  using assms by (auto simp: encode_wave_data_def Let_def split: sum.splits)

lemma encode_wave_data_mono_sample:
  "encode_wave_data LittleEndian [1 / 2] =
     Inr ([82, 73, 70, 70, 38, 0, 0, 0, 87, 65, 86, 69, 102, 109, 116, 32, 16, 0, 0, 0, 1, 0, 2, 0,
           68, 172, 0, 0, 136, 88, 1, 0, 2, 0, 16, 0, 100, 97, 116, 97, 2, 0, 0, 0],
          [255, 63])"
  by (simp add: encode_wave_data_def pack_headers_def create_headers_def Let_def
      calcsize_headers calcsize_format SAMPLE_WIDTH_eq SAMPLING_FREQ_eq SAMPLE_BITS_def
      pack_s_def bytes_of_def pack_I_def pack_H_def int_bytes_def short_bytes_def
      convert_to_bytes_def scaled_half struct_pack_h_def pack_h_def)

section \<open>Claims\<close>

text \<open>
  C4. For every list of channels in which all channels have the same length,
  separating the merged buffer into as many channels as were merged gives the
  channels back:
  \<^verbatim>\<open>separate_channels(merge_channels(channels), len(channels)) == channels\<close>.
\<close>

theorem separate_merge_inverse:
  assumes "\<forall>c \<in> set channels. \<forall>d \<in> set channels. length c = length d"
  shows "separate_channels (merge_channels channels) (int (length channels)) = channels"
proof (cases "channels = []")
  case True
  then show ?thesis
    by (simp add: separate_channels_def)
next
  case False
  define n where "n = length channels"
  define L where "L = length (hd channels)"
  define rows where "rows = map (\<lambda>t. map (\<lambda>c. c ! t) channels) [0..<L]"
  from False have n: "0 < n" by (simp add: n_def)
  from False have "hd channels \<in> set channels" by (rule hd_in_set)
  with assms have eq: "\<forall>c \<in> set channels. length c = L"
    unfolding L_def by blast
  have merged: "merge_channels channels = concat rows"
    using zip_star_equal_length [OF False eq] by (simp add: merge_channels_def rows_def)
  have rows_len: "\<forall>r \<in> set rows. length r = n"
    by (auto simp: rows_def n_def)
  have len_rows: "length rows = L" by (simp add: rows_def)
  have len: "length (concat rows) = L * n"
    using length_concat_rows [OF rows_len] len_rows by simp
  have chan: "py_slice (concat rows) i n = channels ! i" if i: "i < n" for i
  proof (rule nth_equalityI)
    have "length (py_slice (concat rows) i n) = L"
      using i len by (rule length_py_slice_exact)
    moreover have "length (channels ! i) = L"
      using eq i by (simp add: n_def)
    ultimately show "length (py_slice (concat rows) i n) = length (channels ! i)" by simp
  next
    fix k assume "k < length (py_slice (concat rows) i n)"
    moreover have "length (py_slice (concat rows) i n) = L"
      using i len by (rule length_py_slice_exact)
    ultimately have k: "k < L" by simp
    have "py_slice (concat rows) i n ! k = concat rows ! (i + k * n)"
      using n \<open>k < length (py_slice (concat rows) i n)\<close> by (rule nth_py_slice)
    also have "\<dots> = rows ! k ! i"
      using rows_len i k len_rows by (simp add: nth_concat_rows)
    also have "\<dots> = channels ! i ! k"
      using i k by (simp add: rows_def n_def)
    finally show "py_slice (concat rows) i n ! k = channels ! i ! k" .
  qed
  show ?thesis
  proof (rule nth_equalityI)
    show "length (separate_channels (merge_channels channels) (int (length channels))) = length channels"
      by (simp add: separate_channels_def)
  next
    fix i assume "i < length (separate_channels (merge_channels channels) (int (length channels)))"
    then have "i < n" by (simp add: separate_channels_def n_def)
    then show "separate_channels (merge_channels channels) (int (length channels)) ! i = channels ! i"
      using chan [of i] by (simp add: separate_channels_def merged n_def)
  qed
qed

theorem separate_merge_inverse_witness:
  "length [1, 2, 3 :: int] = length [4, 5, 6 :: int] \<and>
   merge_channels [[1, 2, 3], [4, 5, 6 :: int]] = [1, 4, 2, 5, 3, 6] \<and>
   separate_channels (merge_channels [[1, 2, 3], [4, 5, 6 :: int]]) 2 = [[1, 2, 3], [4, 5, 6]]"
proof -
  have "merge_channels [[1, 2, 3], [4, 5, 6 :: int]] = [1, 4, 2, 5, 3, 6]"
    by code_simp
  moreover have "separate_channels (merge_channels [[1, 2, 3], [4, 5, 6 :: int]]) 2 = [[1, 2, 3], [4, 5, 6]]"
    using separate_merge_inverse [of "[[1, 2, 3], [4, 5, 6 :: int]]"] by simp
  ultimately show ?thesis by simp
qed

text \<open>
  C10. For every buffer and every positive number of channels \<open>n\<close>,
  \<open>separate_channels\<close> returns exactly \<open>n\<close> sequences. Channel \<open>c\<close> holds the buffer
  elements at the positions \<open>c\<close>, \<open>c + n\<close>, \<open>c + 2n\<close>, ... below the length of the
  buffer. The element at position \<open>i\<close> is found in channel \<open>i mod n\<close> at index
  \<open>i div n\<close>, and two different places of the channels never hold the same position,
  so every element is in exactly one channel and none is dropped. The lengths of the
  channels add up to the length of the buffer, and the first \<open>length mod n\<close> channels
  are one element longer than the others.
\<close>

theorem separate_channels_partition:
  assumes "0 < n"
  shows "length (separate_channels xs (int n)) = n \<and>
    (\<forall>c<n. length (separate_channels xs (int n) ! c) =
              length xs div n + (if c < length xs mod n then 1 else 0)) \<and>
    (\<forall>c<n. \<forall>k<length (separate_channels xs (int n) ! c).
        c + k * n < length xs \<and> separate_channels xs (int n) ! c ! k = xs ! (c + k * n)) \<and>
    (\<forall>i<length xs.
        i div n < length (separate_channels xs (int n) ! (i mod n)) \<and>
        separate_channels xs (int n) ! (i mod n) ! (i div n) = xs ! i) \<and>
    (\<forall>c<n. \<forall>c'<n. \<forall>k k'. c' + k' * n = c + k * n \<longrightarrow> c' = c \<and> k' = k) \<and>
    sum_list (map length (separate_channels xs (int n))) = length xs"
proof (intro conjI allI impI)
  show "length (separate_channels xs (int n)) = n"
    by (simp add: separate_channels_def)
next
  fix c assume "c < n"
  then show "length (separate_channels xs (int n) ! c) =
             length xs div n + (if c < length xs mod n then 1 else 0)"
    by (rule length_channel)
next
  fix c k assume c: "c < n" and k: "k < length (separate_channels xs (int n) ! c)"
  from k c have k': "k < length (py_slice xs c n)" by (simp only: nth_separate_channels)
  then show "c + k * n < length xs"
    by (rule in_py_slice_iff [OF assms, THEN iffD1])
  show "separate_channels xs (int n) ! c ! k = xs ! (c + k * n)"
    using nth_py_slice [OF assms k'] c by (simp only: nth_separate_channels)
next
  fix i assume i: "i < length xs"
  have c: "i mod n < n" using assms by simp
  have "i mod n + i div n * n < length xs" using i by simp
  then have k: "i div n < length (py_slice xs (i mod n) n)"
    by (rule in_py_slice_iff [OF assms, THEN iffD2])
  then show "i div n < length (separate_channels xs (int n) ! (i mod n))"
    using c by (simp only: nth_separate_channels)
  have "py_slice xs (i mod n) n ! (i div n) = xs ! (i mod n + i div n * n)"
    using assms k by (rule nth_py_slice)
  then show "separate_channels xs (int n) ! (i mod n) ! (i div n) = xs ! i"
    using c by (simp add: nth_separate_channels)
next
  fix c c' k k' assume "c < n" "c' < n" "c' + k' * n = c + k * n"
  then have "c' = c \<and> k' = k" by (rule position_unique)
  then show "c' = c" and "k' = k" by simp_all
next
  show "sum_list (map length (separate_channels xs (int n))) = length xs"
    using assms by (rule sum_length_channels)
qed

theorem separate_channels_partition_witness:
  "0 < (3::nat) \<and>
   separate_channels [1, 2, 3, 4, 5, 6, 7 :: int] (int 3) = [[1, 4, 7], [2, 5], [3, 6]] \<and>
   length (separate_channels [1, 2, 3, 4, 5, 6, 7 :: int] (int 3)) = 3 \<and>
   length [1, 2, 3, 4, 5, 6, 7 :: int] mod 3 = 1"
proof -
  have pos: "0 < (3::nat)" by simp
  have len: "length (separate_channels [1, 2, 3, 4, 5, 6, 7 :: int] (int 3)) = 3"
    using separate_channels_partition [OF pos, of "[1, 2, 3, 4, 5, 6, 7 :: int]"]
    by (rule conjunct1)
  have ev: "separate_channels [1, 2, 3, 4, 5, 6, 7 :: int] (int 3) = [[1, 4, 7], [2, 5], [3, 6]]"
    by code_simp
  show ?thesis using pos len ev by simp
qed

text \<open>
  C6, as amended. For a buffer whose length is not a multiple of the (positive) number
  of channels, \<open>separate_channels\<close> does not fail and drops nothing: each of the last
  \<open>length mod n\<close> samples of the buffer is kept as the last element of one of the first
  \<open>length mod n\<close> channels, which have one element more than the remaining channels,
  and the lengths of the channels add up to the length of the buffer.
\<close>

theorem separate_channels_keeps_remainder:
  assumes "0 < n" and "length xs mod n \<noteq> 0"
  shows "(\<forall>j < length xs mod n.
            length (separate_channels xs (int n) ! j) = length xs div n + 1 \<and>
            last (separate_channels xs (int n) ! j) = xs ! (length xs - length xs mod n + j)) \<and>
         (\<forall>c<n. length xs mod n \<le> c \<longrightarrow>
            length (separate_channels xs (int n) ! c) = length xs div n) \<and>
         sum_list (map length (separate_channels xs (int n))) = length xs"
proof (intro conjI allI impI)
  fix j assume j: "j < length xs mod n"
  have r: "length xs mod n < n" using assms by simp
  with j have jn: "j < n" by simp
  from length_channel [OF jn, of xs] j
  show len: "length (separate_channels xs (int n) ! j) = length xs div n + 1" by simp
  then have ne: "separate_channels xs (int n) ! j \<noteq> []" by auto
  have k: "length xs div n < length (py_slice xs j n)"
    using len jn by (simp add: nth_separate_channels)
  have "last (separate_channels xs (int n) ! j) =
        separate_channels xs (int n) ! j ! (length xs div n)"
    using ne len by (simp add: last_conv_nth)
  also have "\<dots> = xs ! (j + length xs div n * n)"
    using nth_py_slice [OF assms(1) k] jn by (simp only: nth_separate_channels)
  also have "j + length xs div n * n = length xs - length xs mod n + j"
    by (simp add: minus_mod_eq_div_mult)
  finally show "last (separate_channels xs (int n) ! j) = xs ! (length xs - length xs mod n + j)" .
next
  fix c assume "c < n" "length xs mod n \<le> c"
  then show "length (separate_channels xs (int n) ! c) = length xs div n"
    using length_channel [of c n xs] by simp
next
  show "sum_list (map length (separate_channels xs (int n))) = length xs"
    using assms(1) by (rule sum_length_channels)
qed

theorem separate_channels_keeps_remainder_witness:
  "0 < (2::nat) \<and> length [11, 21, 12, 22, 13 :: int] mod 2 \<noteq> 0 \<and>
   separate_channels [11, 21, 12, 22, 13 :: int] (int 2) = [[11, 12, 13], [21, 22]] \<and>
   sum_list (map length (separate_channels [11, 21, 12, 22, 13 :: int] (int 2))) = 5"
proof -
  have pos: "0 < (2::nat)" by simp
  have odd: "length [11, 21, 12, 22, 13 :: int] mod 2 \<noteq> 0" by simp
  have total: "sum_list (map length (separate_channels [11, 21, 12, 22, 13 :: int] (int 2))) =
               length [11, 21, 12, 22, 13 :: int]"
    using separate_channels_keeps_remainder [OF pos odd] by (elim conjE)
  have ev: "separate_channels [11, 21, 12, 22, 13 :: int] (int 2) = [[11, 12, 13], [21, 22]]"
    by code_simp
  show ?thesis using pos total ev by simp
qed

text \<open>
  C6 as stated fails: with three samples on two channels the trailing sample \<open>3\<close> is
  not dropped, it is the second element of the first channel.
\<close>

theorem separate_channels_drops_counterexample:
  "length [1, 2, 3 :: int] mod 2 = 1 \<and>
   drop (length [1, 2, 3 :: int] - length [1, 2, 3 :: int] mod 2) [1, 2, 3 :: int] = [3] \<and>
   separate_channels [1, 2, 3 :: int] 2 = [[1, 3], [2]] \<and>
   3 \<in> set (concat (separate_channels [1, 2, 3 :: int] 2))"
proof -
  have ev: "separate_channels [1, 2, 3 :: int] 2 = [[1, 3], [2]]"
    by code_simp
  show ?thesis unfolding ev by simp
qed

text \<open>
  C1. For every sample sequence whose values lie in \<open>[-1, 1]\<close>, encoding succeeds,
  decoding the encoded bytes succeeds, the decoded sequence has the length of the
  original, and each decoded sample differs from the original one by at most one
  quantization step \<open>1 / MAX_SAMPLE_VALUE = 1 / 32767\<close>. This holds for either byte
  order of the host, since both directions use the same native format.
\<close>

theorem convert_roundtrip:
  assumes "\<forall>s \<in> set samples. - 1 \<le> s \<and> s \<le> 1"
  shows "\<exists>bs out. convert_to_bytes order samples = Inr bs \<and>
           convert_to_samples order bs = Inr out \<and>
           length out = length samples \<and>
           (\<forall>i < length samples. \<bar>out ! i - samples ! i\<bar> \<le> 1 / real_of_int MAX_SAMPLE_VALUE) \<and>
           1 / real_of_int MAX_SAMPLE_VALUE = 1 / 32767"
proof -
  from convert_to_bytes_fits [OF fits_of_unit [OF assms], of order]
  obtain vs where len_vs: "length vs = length samples"
    and fits: "\<forall>v \<in> set vs. - 32768 \<le> v \<and> v \<le> 32767"
    and vals: "\<forall>i < length samples.
                 py_int (float_mul (samples ! i) (real_of_int MAX_SAMPLE_VALUE)) = Inr (vs ! i)"
    and enc: "convert_to_bytes order samples =
                Inr (concat (map (\<lambda>v. short_bytes order (word_of_int v)) vs))"
    by blast
  define bs where "bs = concat (map (\<lambda>v. short_bytes order (word_of_int v)) vs)"
  define out where "out = map (\<lambda>v. real_of_int v / real_of_int MAX_SAMPLE_VALUE) vs"
  have dec: "convert_to_samples order bs = Inr out"
    unfolding bs_def out_def by (rule decode_encoded [OF fits])
  have len: "length out = length samples"
    by (simp add: out_def len_vs)
  have close: "\<bar>out ! i - samples ! i\<bar> \<le> 1 / real_of_int MAX_SAMPLE_VALUE"
    if i: "i < length samples" for i
  proof -
    define x where "x = samples ! i * 32767"
    from i assms have "- 1 \<le> samples ! i" and "samples ! i \<le> 1" by auto
    from scaled_unit [OF this]
    obtain r where r: "float_mul (samples ! i) (real_of_int MAX_SAMPLE_VALUE) = Finite r"
      and c: "\<bar>real_of_int (trunc_zero r) - x\<bar> < 1" unfolding x_def by blast
    from vals i have "py_int (float_mul (samples ! i) (real_of_int MAX_SAMPLE_VALUE)) = Inr (vs ! i)"
      by blast
    then have v: "vs ! i = trunc_zero r" unfolding r by simp
    have o: "out ! i = real_of_int (vs ! i) / 32767"
      using i by (simp add: out_def len_vs MAX_SAMPLE_VALUE_eq)
    have s: "samples ! i = x / 32767" by (simp add: x_def)
    define d where "d = real_of_int (vs ! i) - x"
    have "out ! i - samples ! i = d / 32767"
      unfolding o s d_def by (simp add: diff_divide_distrib)
    then have "\<bar>out ! i - samples ! i\<bar> = \<bar>d\<bar> / 32767"
      by (simp only: abs_divide abs_numeral)
    also have "\<dots> \<le> 1 / 32767"
      using c unfolding d_def v by (simp add: divide_le_cancel)
    finally show ?thesis by (simp add: MAX_SAMPLE_VALUE_eq)
  qed
  from enc dec len close show ?thesis
    unfolding bs_def [symmetric]
    by (intro exI [of _ bs] exI [of _ out]) (simp add: MAX_SAMPLE_VALUE_eq)
qed

theorem convert_roundtrip_witness:
  "(- 1 \<le> (4 / 5 :: real) \<and> (4 / 5 :: real) \<le> 1) \<and>
   convert_to_bytes LittleEndian [4 / 5] = Inr [101, 102] \<and>
   convert_to_samples LittleEndian [101, 102] = Inr [26213 / 32767] \<and>
   \<bar>26213 / 32767 - 4 / 5\<bar> \<le> (1 / 32767 :: real)"
proof -
  have h: "\<forall>s \<in> set [4 / 5 :: real]. - 1 \<le> s \<and> s \<le> 1" by simp
  obtain bs out where enc: "convert_to_bytes LittleEndian [4 / 5] = Inr bs"
    and dec: "convert_to_samples LittleEndian bs = Inr out"
    and close: "\<forall>i < length [4 / 5 :: real]. \<bar>out ! i - [4 / 5] ! i\<bar> \<le> 1 / real_of_int MAX_SAMPLE_VALUE"
    using convert_roundtrip [OF h, of LittleEndian] by blast
  from enc have bs: "bs = [101, 102]"
    by (simp only: convert_to_bytes_four_fifths sum.inject)
  from dec have out: "out = [26213 / 32767]"
    by (simp only: bs convert_to_samples_four_fifths sum.inject)
  from close have "\<bar>26213 / 32767 - 4 / 5\<bar> \<le> (1 / 32767 :: real)"
    unfolding out by (simp add: MAX_SAMPLE_VALUE_eq)
  then show ?thesis
    using convert_to_bytes_four_fifths convert_to_samples_four_fifths by simp
qed













text \<open>
  C5. What \<open>create_headers\<close> computes, for every number of samples: the header
  announces two channels of two bytes per sample, yet its block-align field is
  \<open>SAMPLE_WIDTH = 2\<close>, not \<open>num_channels * SAMPLE_WIDTH = 4\<close>. The byte rate is the
  sample rate times that block align, \<open>88200\<close>, where two channels need \<open>176400\<close>.
\<close>

theorem create_headers_block_align:
  "num_channels (create_headers num_samples) = 2 \<and>
   SAMPLE_WIDTH = 2 \<and>
   block_align (create_headers num_samples) = 2 \<and>
   block_align (create_headers num_samples) \<noteq>
     num_channels (create_headers num_samples) * SAMPLE_WIDTH \<and>
   bytes_per_second (create_headers num_samples) = 88200 \<and>
   bytes_per_second (create_headers num_samples) =
     sampling_freq (create_headers num_samples) * block_align (create_headers num_samples) \<and>
   sampling_freq (create_headers num_samples) *
     (num_channels (create_headers num_samples) * SAMPLE_WIDTH) = 176400"
  by (simp add: create_headers_def Let_def SAMPLE_WIDTH_eq SAMPLING_FREQ_eq)

text \<open>
  C9. Whatever the number of samples, the header built by \<open>create_headers\<close> has the
  channel count 2, 16 bits per sample and the sample rate 44100; the builder has no
  parameter for them. So whenever \<open>encode_wave_data\<close> returns, for any samples, its
  header is 44 bytes long and carries, at the offsets 22, 24 and 34, the little-endian
  encodings of 2, 44100 and 16: a single channel of data gets a stereo header too.
\<close>

theorem create_headers_always_stereo:
  "num_channels (create_headers num_samples) = 2 \<and>
   sample_bits (create_headers num_samples) = 16 \<and>
   sampling_freq (create_headers num_samples) = 44100 \<and>
   (\<forall>hb db. encode_wave_data order samples = Inr (hb, db) \<longrightarrow>
      length hb = 44 \<and>
      take 2 (drop 22 hb) = [2, 0] \<and>
      take 4 (drop 24 hb) = [68, 172, 0, 0] \<and>
      take 2 (drop 34 hb) = [16, 0]) \<and>
   pack_H 2 = Inr [2, 0] \<and> pack_I 44100 = Inr [68, 172, 0, 0] \<and> pack_H 16 = Inr [16, 0]"
proof -
  have fields: "num_channels (create_headers num_samples) = 2"
    "sample_bits (create_headers num_samples) = 16"
    "sampling_freq (create_headers num_samples) = 44100"
    by (simp_all add: create_headers_def Let_def SAMPLE_BITS_def SAMPLING_FREQ_eq)
  have bytes: "length hb = 44 \<and> take 2 (drop 22 hb) = [2, 0] \<and>
      take 4 (drop 24 hb) = [68, 172, 0, 0] \<and> take 2 (drop 34 hb) = [16, 0]"
    if "encode_wave_data order samples = Inr (hb, db)" for hb db
  proof -
    from pack_headers_create [OF encode_wave_data_headers [OF that]]
    obtain fs ds where "length fs = 4" and "length ds = 4"
      and hb: "hb = [82, 73, 70, 70] @ fs @ [87, 65, 86, 69, 102, 109, 116, 32, 16, 0, 0, 0, 1, 0, 2, 0,
             68, 172, 0, 0, 136, 88, 1, 0, 2, 0, 16, 0, 100, 97, 116, 97] @ ds"
      by blast
    then show ?thesis by simp
  qed
  have packs: "pack_H 2 = Inr [2, 0]" "pack_I 44100 = Inr [68, 172, 0, 0]" "pack_H 16 = Inr [16, 0]"
    by (simp_all add: pack_H_def pack_I_def short_bytes_def int_bytes_def)
  from fields bytes packs show ?thesis by blast
qed

theorem create_headers_always_stereo_witness:
  "encode_wave_data LittleEndian [1 / 2] =
     Inr ([82, 73, 70, 70, 38, 0, 0, 0, 87, 65, 86, 69, 102, 109, 116, 32, 16, 0, 0, 0, 1, 0, 2, 0,
           68, 172, 0, 0, 136, 88, 1, 0, 2, 0, 16, 0, 100, 97, 116, 97, 2, 0, 0, 0],
          [255, 63]) \<and>
   take 2 (drop 22 [82, 73, 70, 70, 38, 0, 0, 0, 87, 65, 86, 69, 102, 109, 116, 32, 16, 0, 0, 0,
           1, 0, 2, 0, 68, 172, 0, 0, 136, 88, 1, 0, 2, 0, 16, 0, 100, 97, 116, 97, 2, 0, 0, 0])
     = [2, 0 :: byte] \<and>
   num_channels (create_headers 1) = 2"
proof -
  from create_headers_always_stereo [of 1 LittleEndian "[1 / 2]"]
  have n: "num_channels (create_headers 1) = 2"
    and b: "\<forall>hb db. encode_wave_data LittleEndian [1 / 2] = Inr (hb, db) \<longrightarrow>
      length hb = 44 \<and>
      take 2 (drop 22 hb) = [2, 0] \<and>
      take 4 (drop 24 hb) = [68, 172, 0, 0] \<and>
      take 2 (drop 34 hb) = [16, 0]"
    by blast+
  from b encode_wave_data_mono_sample
  have "take 2 (drop 22 [82, 73, 70, 70, 38, 0, 0, 0, 87, 65, 86, 69, 102, 109, 116, 32, 16, 0, 0, 0,
           1, 0, 2, 0, 68, 172, 0, 0, 136, 88, 1, 0, 2, 0, 16, 0, 100, 97, 116, 97, 2, 0, 0, 0])
     = [2, 0 :: byte]"
    by blast
  with n encode_wave_data_mono_sample show ?thesis by blast
qed

end
